theory Spec2Isabelle
  imports Main "HOL-Library.Word"
begin

unbundle bit_operations_syntax

section \<open>Size arithmetic of alloc.h\<close>

text \<open>
  The type \<open>size_t\<close> is an unsigned machine word; the definitions are polymorphic in
  its width, and the concrete scenarios are evaluated at 64 bits.  Addition,
  subtraction and multiplication wrap around, as unsigned arithmetic does in C.
\<close>

type_synonym size_t = "64 word"

text \<open>Round down to a multiple of an alignment: \<open>size & ~(align - 1)\<close>.\<close>

definition align_floor :: "'a::len word \<Rightarrow> 'a word \<Rightarrow> 'a word" where
  "align_floor align sz = sz AND NOT (align - 1)"

text \<open>Round up to a multiple of an alignment: \<open>align_floor(align, size + align - 1)\<close>.\<close>

definition align_ceil :: "'a::len word \<Rightarrow> 'a word \<Rightarrow> 'a word" where
  "align_ceil align sz = align_floor align (sz + align - 1)"

text \<open>
  Unsigned division as C has it: dividing by zero is undefined behaviour, which the
  model reports as \<open>None\<close>.
\<close>

definition udiv :: "'a::len word \<Rightarrow> 'a word \<Rightarrow> 'a word option" where
  "udiv a b = (if b = 0 then None else Some (a div b))"

text \<open>
  Saturating array size.  The division \<open>ret / size\<close> is evaluated on every path, so
  the function has a defined result only where that division has one.
\<close>

definition array_size :: "'a::len word \<Rightarrow> 'a word \<Rightarrow> 'a word \<Rightarrow> 'a word option" where
  "array_size align sz count =
     (let ret = sz * count in
      case udiv ret sz of
        None \<Rightarrow> None
      | Some q \<Rightarrow> Some (if q = count then ret else NOT (align - 1)))"

text \<open>
  Saturating flexible struct size.  The local \<open>overflow\<close> is a \<open>size_t\<close> holding 0 or 1;
  \<open>ret |= -overflow\<close> sets every bit of \<open>ret\<close> when it is 1.
\<close>

definition flex_size ::
  "'a::len word \<Rightarrow> 'a word \<Rightarrow> 'a word \<Rightarrow> 'a word \<Rightarrow> 'a word \<Rightarrow> 'a word option" where
  "flex_size align mn offset sz count =
     (let ret = sz * count in
      case udiv ret sz of
        None \<Rightarrow> None
      | Some q \<Rightarrow>
          let overflow = of_bool (q \<noteq> count);
              extra = offset + align - 1;
              ret = ret + extra;
              overflow = overflow OR of_bool (ret < extra);
              ret = ret OR (- overflow);
              ret = align_floor align ret;
              ret = (if mn > align_ceil align offset
                     then (if ret < mn then mn else ret)
                     else ret)
          in Some ret)"

text \<open>
  The alignments the helpers are meant for: powers of two that fit the word.
\<close>

definition is_pow2 :: "'a::len word \<Rightarrow> bool" where
  "is_pow2 a \<longleftrightarrow> (\<exists>k \<in> {..<LENGTH('a)}. a = 2 ^ k)"

section \<open>The flexible-size formula as the specification words it\<close>

text \<open>
  The specification describes \<open>flex_size\<close> as: compute \<open>esz * n + off\<close>, apply
  \<open>align_floor\<close>, then clamp up to \<open>min\<close> if \<open>min > align_ceil(A, off)\<close>.  This
  definition follows those words; it is compared with \<open>flex_size\<close> below.
\<close>

definition flex_size_spec ::
  "'a::len word \<Rightarrow> 'a word \<Rightarrow> 'a word \<Rightarrow> 'a word \<Rightarrow> 'a word \<Rightarrow> 'a word" where
  "flex_size_spec align mn offset sz count =
     (let r = align_floor align (sz * count + offset)
      in if mn > align_ceil align offset then (if r < mn then mn else r) else r)"

section \<open>The I/O queue of ioq.h\<close>

text \<open>The operations and the entry structure are declared in the header.\<close>

datatype ioq_op = IOQ_CLOSE | IOQ_OPENDIR | IOQ_CLOSEDIR

datatype ioq_args =
    Close_args int
  | Opendir_args nat int string
  | Closedir_args nat

record ioq_ent =
  ent_op :: ioq_op
  ent_ret :: int
  ent_error :: int
  ent_ptr :: nat
  ent_args :: ioq_args

text \<open>
  Modelled from the spec: \<open>struct ioq\<close> is opaque in the header and the bodies of the
  \<open>ioq_*\<close> functions are not among the sources.  Following sections 4.5 to 4.7 of the
  specification, a queue owns a block of \<open>depth\<close> entries (addressed by slot number), a
  free stack, a submission ring, the entries held by workers, a completion ring, and
  the entries the driver has popped and not yet freed.
\<close>

record ioq =
  ioq_depth :: nat
  ioq_nthreads :: nat
  ioq_ents :: "ioq_ent list"
  ioq_free_stack :: "nat list"
  ioq_submitted :: "nat list"
  ioq_inflight :: "nat list"
  ioq_completed :: "nat list"
  ioq_popped :: "nat list"
  ioq_cancelled :: bool

text \<open>Modelled from the spec: the platform's cancellation error code (its Linux value).\<close>

definition ECANCELED :: int where
  "ECANCELED = 125"

definition blank_ent :: ioq_ent where
  "blank_ent = \<lparr>ent_op = IOQ_CLOSE, ent_ret = 0, ent_error = 0, ent_ptr = 0,
                 ent_args = Close_args 0\<rparr>"

text \<open>
  Modelled from the spec: \<open>ioq_create\<close> allocates the block of \<open>depth\<close> entries and threads
  them onto the free stack; it returns null when the allocation fails, which the
  argument \<open>alloc_ok\<close> decides.
\<close>

definition ioq_create :: "nat \<Rightarrow> nat \<Rightarrow> bool \<Rightarrow> ioq option" where
  "ioq_create depth nthreads alloc_ok =
     (if alloc_ok
      then Some \<lparr>ioq_depth = depth, ioq_nthreads = nthreads,
                 ioq_ents = replicate depth blank_ent,
                 ioq_free_stack = [0..<depth],
                 ioq_submitted = [], ioq_inflight = [], ioq_completed = [],
                 ioq_popped = [], ioq_cancelled = False\<rparr>
      else None)"

text \<open>Modelled from the spec: \<open>ioq_capacity\<close> is the current number of free slots.\<close>

definition ioq_capacity :: "ioq \<Rightarrow> nat" where
  "ioq_capacity q = length (ioq_free_stack q)"

text \<open>
  Modelled from the spec: a submission (\<open>ioq_close\<close>, \<open>ioq_opendir\<close>, \<open>ioq_closedir\<close>) pops
  a free entry, fills it and pushes it into the submission ring; it fails with -1 and
  changes nothing when no entry is free.
\<close>

definition ioq_submit :: "ioq \<Rightarrow> ioq_op \<Rightarrow> ioq_args \<Rightarrow> nat \<Rightarrow> int \<times> ioq" where
  "ioq_submit q opn args cookie =
     (case ioq_free_stack q of
        [] \<Rightarrow> (-1, q)
      | e # rest \<Rightarrow>
          (0, q\<lparr>ioq_free_stack := rest,
                 ioq_ents := (ioq_ents q)[e := \<lparr>ent_op = opn, ent_ret = 0, ent_error = 0,
                                                ent_ptr = cookie, ent_args = args\<rparr>],
                 ioq_submitted := ioq_submitted q @ [e]\<rparr>))"

definition ioq_close :: "ioq \<Rightarrow> int \<Rightarrow> nat \<Rightarrow> int \<times> ioq" where
  "ioq_close q fd cookie = ioq_submit q IOQ_CLOSE (Close_args fd) cookie"

definition ioq_opendir :: "ioq \<Rightarrow> nat \<Rightarrow> int \<Rightarrow> string \<Rightarrow> nat \<Rightarrow> int \<times> ioq" where
  "ioq_opendir q dir dfd path cookie =
     ioq_submit q IOQ_OPENDIR (Opendir_args dir dfd path) cookie"

definition ioq_closedir :: "ioq \<Rightarrow> nat \<Rightarrow> nat \<Rightarrow> int \<times> ioq" where
  "ioq_closedir q dir cookie = ioq_submit q IOQ_CLOSEDIR (Closedir_args dir) cookie"

text \<open>
  Modelled from the spec: a worker takes the oldest submission, provided one of the
  \<open>nthreads\<close> workers is idle; the entry is then in flight.
\<close>

definition ioq_dispatch :: "ioq \<Rightarrow> ioq" where
  "ioq_dispatch q =
     (case ioq_submitted q of
        [] \<Rightarrow> q
      | e # rest \<Rightarrow>
          if length (ioq_inflight q) < ioq_nthreads q
          then q\<lparr>ioq_submitted := rest, ioq_inflight := ioq_inflight q @ [e]\<rparr>
          else q)"

text \<open>
  Modelled from the spec: the worker holding entry \<open>e\<close> stores the result of the system
  call and pushes the entry onto the completion ring.
\<close>

definition ioq_publish :: "ioq \<Rightarrow> nat \<Rightarrow> int \<Rightarrow> int \<Rightarrow> ioq" where
  "ioq_publish q e r err =
     (if e \<in> set (ioq_inflight q)
      then q\<lparr>ioq_inflight := remove1 e (ioq_inflight q),
             ioq_ents := (ioq_ents q)[e := (ioq_ents q ! e)\<lparr>ent_ret := r, ent_error := err\<rparr>],
             ioq_completed := ioq_completed q @ [e]\<rparr>
      else q)"

text \<open>
  Modelled from the spec: \<open>ioq_trypop\<close> returns the next response or null; the entry stays
  with the driver until it is freed.
\<close>

definition ioq_trypop :: "ioq \<Rightarrow> nat option \<times> ioq" where
  "ioq_trypop q =
     (case ioq_completed q of
        [] \<Rightarrow> (None, q)
      | e # rest \<Rightarrow> (Some e, q\<lparr>ioq_completed := rest, ioq_popped := e # ioq_popped q\<rparr>))"

text \<open>
  Modelled from the spec: \<open>ioq_free\<close> returns a popped entry to the free stack.  Freeing
  an entry the driver does not hold is a contract violation, with no defined result.
\<close>

definition ioq_free :: "ioq \<Rightarrow> nat \<Rightarrow> ioq option" where
  "ioq_free q e =
     (if e \<in> set (ioq_popped q)
      then Some (q\<lparr>ioq_popped := remove1 e (ioq_popped q),
                   ioq_free_stack := e # ioq_free_stack q\<rparr>)
      else None)"

text \<open>
  Modelled from the spec: \<open>ioq_cancel\<close> sets the cancellation flag and drains the
  submission ring into the completion ring with \<open>ret = -1\<close> and \<open>error = ECANCELED\<close>.
\<close>

definition cancel_ent :: "ioq_ent \<Rightarrow> ioq_ent" where
  "cancel_ent e = e\<lparr>ent_ret := -1, ent_error := ECANCELED\<rparr>"

definition ioq_cancel :: "ioq \<Rightarrow> ioq" where
  "ioq_cancel q =
     q\<lparr>ioq_cancelled := True,
       ioq_ents := fold (\<lambda>e ents. ents[e := cancel_ent (ents ! e)]) (ioq_submitted q) (ioq_ents q),
       ioq_completed := ioq_completed q @ ioq_submitted q,
       ioq_submitted := []\<rparr>"

text \<open>
  The events that move a queue from one state to the next: the driver's calls and the
  two steps of a worker.  A run is a sequence of events; it has no defined result once
  the contract is violated.
\<close>

datatype ioq_event =
    Submit ioq_op ioq_args nat
  | Dispatch
  | Publish nat int int
  | Pop
  | Free nat
  | Cancel

fun ioq_step :: "ioq \<Rightarrow> ioq_event \<Rightarrow> ioq option" where
  "ioq_step q (Submit opn args cookie) = Some (snd (ioq_submit q opn args cookie))"
| "ioq_step q Dispatch = Some (ioq_dispatch q)"
| "ioq_step q (Publish e r err) = Some (ioq_publish q e r err)"
| "ioq_step q Pop = Some (snd (ioq_trypop q))"
| "ioq_step q (Free e) = ioq_free q e"
| "ioq_step q Cancel = Some (ioq_cancel q)"

fun ioq_run :: "ioq \<Rightarrow> ioq_event list \<Rightarrow> ioq option" where
  "ioq_run q [] = Some q"
| "ioq_run q (ev # evs) =
     (case ioq_step q ev of None \<Rightarrow> None | Some q' \<Rightarrow> ioq_run q' evs)"

text \<open>The number of entries in each of the owners the specification counts.\<close>

definition ioq_total :: "ioq \<Rightarrow> nat" where
  "ioq_total q =
     length (ioq_free_stack q) + length (ioq_submitted q) + length (ioq_inflight q)
     + (length (ioq_completed q) + length (ioq_popped q))"

section \<open>Facts about words\<close>

lemma and_not_mask_push_drop:
  "(x::'a::len word) AND NOT (mask k) = push_bit k (drop_bit k x)"
  by (rule bit_eqI) (auto simp: bit_simps)

lemma and_not_mask_minus:
  "(x::'a::len word) AND NOT (mask k) = x - take_bit k x"
proof -
  have "push_bit k (drop_bit k x) + take_bit k x = x" by (rule bits_ident)
  then show ?thesis unfolding and_not_mask_push_drop by (simp add: algebra_simps)
qed

lemma unat_take_bit_mod: "unat (take_bit k (x::'a::len word)) = unat x mod 2 ^ k"
  unfolding unsigned_take_bit_eq by (simp add: take_bit_eq_mod)

lemma take_bit_word_le: "take_bit k (x::'a::len word) \<le> x"
  unfolding word_le_nat_alt unat_take_bit_mod by simp

lemma unat_and_not_mask:
  "unat ((x::'a::len word) AND NOT (mask k)) = (unat x div 2 ^ k) * 2 ^ k"
proof -
  have "unat (x - take_bit k x) = unat x - unat (take_bit k x)"
    by (rule unat_sub) (rule take_bit_word_le)
  also have "\<dots> = unat x - unat x mod 2 ^ k"
    by (simp only: unat_take_bit_mod)
  also have "\<dots> = (unat x div 2 ^ k) * 2 ^ k"
    by (simp add: minus_mod_eq_div_mult)
  finally show ?thesis by (simp only: and_not_mask_minus)
qed

lemma unat_two_power:
  assumes "k < LENGTH('a)"
  shows "unat (2 ^ k :: 'a::len word) = 2 ^ k"
proof -
  have "(2 ^ k :: 'a word) = of_nat (2 ^ k)" by simp
  moreover have "(2::nat) ^ k < 2 ^ LENGTH('a)" using assms by simp
  ultimately show ?thesis by (simp only: unat_of_nat mod_less)
qed

lemma is_pow2_unat:
  assumes "is_pow2 (a::'a::len word)"
  obtains k where "k < LENGTH('a)" "a = 2 ^ k" "unat a = 2 ^ k"
  using assms unat_two_power by (auto simp: is_pow2_def)

lemma is_pow2_8: "is_pow2 (8 :: size_t)"
  unfolding is_pow2_def by (rule bexI [of _ 3]) simp_all

lemma mult_div_overflow_iff:
  fixes s n :: "'a::len word"
  assumes "s \<noteq> 0"
  shows "(s * n) div s = n \<longleftrightarrow> unat s * unat n < 2 ^ LENGTH('a)"
proof
  assume "unat s * unat n < 2 ^ LENGTH('a)"
  then have "unat (s * n) = unat s * unat n" by (simp add: unat_mult_lem)
  moreover have "0 < unat s" using assms by (simp add: unat_gt_0)
  ultimately have "unat ((s * n) div s) = unat n" by (simp add: unat_div)
  then show "(s * n) div s = n" by (simp only: word_unat_eq_iff)
next
  assume h: "(s * n) div s = n"
  have "unat n = unat (s * n) div unat s" using h by (metis unat_div)
  then have "unat s * unat n \<le> unat (s * n)" by simp
  also have "\<dots> < 2 ^ LENGTH('a)" by (rule unsigned_less)
  finally show "unat s * unat n < 2 ^ LENGTH('a)" .
qed

lemma add_wrap_iff:
  fixes r e :: "'a::len word"
  shows "r + e < e \<longleftrightarrow> 2 ^ LENGTH('a) \<le> unat r + unat e"
proof -
  have "e \<le> e + r \<longleftrightarrow> unat e + unat r < 2 ^ LENGTH('a)" by (rule no_olen_add_nat)
  then show ?thesis by (simp add: add.commute not_le [symmetric] not_less)
qed

section \<open>Rounding to an alignment\<close>

lemma unat_align_floor:
  assumes "is_pow2 (a::'a::len word)"
  shows "unat (align_floor a x) = (unat x div unat a) * unat a"
proof -
  from assms obtain k where k: "k < LENGTH('a)" "a = 2 ^ k" "unat a = 2 ^ k"
    by (rule is_pow2_unat)
  have "a - 1 = mask k" by (simp add: k mask_eq_decr_exp)
  then have "align_floor a x = x AND NOT (mask k)" by (simp add: align_floor_def)
  then show ?thesis by (simp only: unat_and_not_mask k(3))
qed

section \<open>Saturating array size\<close>

lemma array_size_cases:
  fixes A S N :: "'a::len word"
  assumes "S \<noteq> 0"
  shows "array_size A S N =
           Some (if unat S * unat N < 2 ^ LENGTH('a) then S * N else NOT (A - 1))"
  using assms mult_div_overflow_iff [OF assms, of N]
  by (simp add: array_size_def udiv_def)

text \<open>
  Claim C1.  For a power-of-two alignment \<open>A\<close>, an element size \<open>S > 0\<close> and any count
  \<open>N\<close>: when the product \<open>S * N\<close> fits in a \<open>size_t\<close>, \<open>array_size\<close> returns exactly that
  product; otherwise it returns the sentinel \<open>~(A - 1)\<close>.  No other value is returned.
  On a 64-bit system \<open>array_size(8, 16, SIZE_MAX)\<close> is \<open>0xFFFFFFFFFFFFFFF8\<close>.
\<close>

theorem array_size_exact_or_sentinel:
  fixes A S N :: "'a::len word"
  assumes "is_pow2 A" and "S \<noteq> 0"
  shows "(unat S * unat N < 2 ^ LENGTH('a) \<longrightarrow>
            array_size A S N = Some (S * N) \<and> unat (S * N) = unat S * unat N)
       \<and> (2 ^ LENGTH('a) \<le> unat S * unat N \<longrightarrow> array_size A S N = Some (NOT (A - 1)))
       \<and> (array_size A S N = Some (S * N) \<or> array_size A S N = Some (NOT (A - 1)))
       \<and> array_size (8 :: size_t) 16 0xFFFFFFFFFFFFFFFF = Some 0xFFFFFFFFFFFFFFF8"
proof -
  have c: "array_size (8 :: size_t) 16 0xFFFFFFFFFFFFFFFF = Some 0xFFFFFFFFFFFFFFF8"
    by (simp add: array_size_def udiv_def)
  show ?thesis
    using array_size_cases [OF assms(2), of A N] c
    by (auto simp: unat_mult_lem [symmetric])
qed

theorem array_size_exact_or_sentinel_witness:
  "array_size (8 :: size_t) 16 3 = Some 48
   \<and> array_size (8 :: size_t) 16 0x1000000000000000 = Some 0xFFFFFFFFFFFFFFF8"
  using array_size_exact_or_sentinel [OF is_pow2_8, of 16 3]
        array_size_exact_or_sentinel [OF is_pow2_8, of 16 "0x1000000000000000"]
  by simp

section \<open>Saturating flexible struct size\<close>

lemma neg_of_bool_or:
  "(r::'a::len word) OR - (of_bool b OR of_bool c) = (if b \<or> c then - 1 else r)"
  by (cases b; cases c) simp_all

lemma align_floor_all_ones: "align_floor a (- 1 :: 'a::len word) = NOT (a - 1)"
  by (simp add: align_floor_def)

text \<open>
  The body of \<open>flex_size\<close> with the overflow flag read as a condition: \<open>ret\<close> before the
  final clamp is the sentinel when the product or the addition of \<open>extra\<close> wrapped, and
  the rounded sum otherwise.
\<close>

lemma flex_size_cases:
  fixes A mn off esz n :: "'a::len word"
  assumes "esz \<noteq> 0"
  shows "flex_size A mn off esz n =
           Some (let r = (if 2 ^ LENGTH('a) \<le> unat esz * unat n
                             \<or> 2 ^ LENGTH('a) \<le> unat (esz * n) + unat (off + A - 1)
                          then NOT (A - 1)
                          else align_floor A (esz * n + (off + A - 1)))
                 in if align_ceil A off < mn \<and> r < mn then mn else r)"
proof -
  have m: "(esz * n div esz \<noteq> n) \<longleftrightarrow> 2 ^ LENGTH('a) \<le> unat esz * unat n"
    using mult_div_overflow_iff [OF assms, of n] by (simp add: not_less)
  show ?thesis
    using assms
    by (simp add: flex_size_def udiv_def Let_def neg_of_bool_or m add_wrap_iff
        align_floor_all_ones)
qed

text \<open>
  Claim C10.  Both \<open>array_size\<close> and \<open>flex_size\<close> evaluate the division by the element
  size on every path: with a non-zero size they return a value, and with size zero
  neither has a defined result, whatever the other arguments are.
\<close>

theorem size_zero_undefined:
  fixes A mn off sz n :: "'a::len word"
  shows "(sz \<noteq> 0 \<longrightarrow> (\<exists>r. array_size A sz n = Some r) \<and> (\<exists>r. flex_size A mn off sz n = Some r))
       \<and> array_size A 0 n = None
       \<and> flex_size A mn off 0 n = None"
  by (simp add: array_size_def flex_size_def udiv_def Let_def)

theorem size_zero_undefined_witness:
  "(\<exists>r. array_size (8 :: size_t) 16 3 = Some r) \<and> (\<exists>r. flex_size (8 :: size_t) 24 16 16 3 = Some r)
   \<and> array_size (8 :: size_t) 0 3 = None \<and> flex_size (8 :: size_t) 24 16 0 3 = None"
  using size_zero_undefined [of "16 :: size_t" 8 3 24 16]
  by simp

text \<open>
  Claim C5.  With a count of zero, \<open>flex_size\<close> returns at least \<open>min\<close>: for a
  power-of-two \<open>A\<close>, \<open>esz > 0\<close> and \<open>off + A - 1\<close> not overflowing, and in particular when
  the base struct has more tail padding than alignment requires
  (\<open>min > align_ceil(A, off)\<close>), where the result is \<open>min\<close> itself.
\<close>

theorem flex_size_zero_ge_min:
  fixes A mn off esz :: "'a::len word"
  assumes "is_pow2 A" and "esz \<noteq> 0" and "unat off + (unat A - 1) < 2 ^ LENGTH('a)"
  shows "\<exists>r. flex_size A mn off esz 0 = Some r \<and> mn \<le> r
            \<and> (align_ceil A off < mn \<longrightarrow> r = mn)"
proof -
  have "\<not> 2 ^ LENGTH('a) \<le> unat (off + A - 1)" by (simp add: not_le)
  then have "flex_size A mn off esz 0 =
          Some (if align_ceil A off < mn then mn else align_ceil A off)"
    using flex_size_cases [OF assms(2), of A mn off 0]
    by (simp add: Let_def align_ceil_def)
  then show ?thesis by (auto simp: not_less)
qed

theorem flex_size_zero_ge_min_witness:
  "(\<exists>r. flex_size (8 :: size_t) 24 16 8 0 = Some r \<and> 24 \<le> r)
   \<and> (\<exists>r. flex_size (8 :: size_t) 32 16 8 0 = Some r \<and> 32 \<le> r \<and> r = 32)"
proof -
  have a: "align_ceil (8 :: size_t) 16 < 32" by (simp add: align_ceil_def align_floor_def)
  show ?thesis
    using flex_size_zero_ge_min [OF is_pow2_8, of 8 16 24]
          flex_size_zero_ge_min [OF is_pow2_8, of 8 16 32] a
    by auto
qed

section \<open>Least and greatest multiples\<close>

lemma floor_mult_greatest:
  fixes a x m :: nat
  assumes "a dvd m" and "m \<le> x" and "0 < a"
  shows "m \<le> (x div a) * a"
proof -
  from assms(1) obtain c where c: "m = a * c" by (auto simp: dvd_def)
  have "c = m div a" using c assms(3) by simp
  also have "\<dots> \<le> x div a" using assms(2) by (rule div_le_mono)
  finally have "c * a \<le> (x div a) * a" by (rule mult_le_mono1)
  then show ?thesis by (simp add: c mult.commute)
qed

lemma ceil_mult_ge:
  fixes a x :: nat
  assumes "0 < a"
  shows "x \<le> ((x + (a - 1)) div a) * a"
proof -
  define s where "s = x + (a - 1)"
  have "s mod a < a" using assms by (rule mod_less_divisor)
  moreover have "(s div a) * a = s - s mod a"
    by (simp add: minus_mod_eq_div_mult)
  moreover have "s mod a \<le> s" by (rule mod_less_eq_dividend)
  ultimately have "x \<le> (s div a) * a" using assms unfolding s_def by arith
  then show ?thesis by (simp only: s_def)
qed

lemma ceil_mult_least:
  fixes a x m :: nat
  assumes "a dvd m" and "x \<le> m" and "0 < a"
  shows "((x + (a - 1)) div a) * a \<le> m"
proof -
  from assms(1) obtain c where c: "m = a * c" by (auto simp: dvd_def)
  have "x + (a - 1) < a * (c + 1)" using assms(2,3) c by simp
  then have "(x + (a - 1)) div a < c + 1"
    using assms(3) by (simp add: less_mult_imp_div_less mult.commute)
  then have "((x + (a - 1)) div a) * a \<le> c * a" by (intro mult_le_mono1) simp
  then show ?thesis by (simp add: c mult.commute)
qed

lemma unat_plus_align_minus_1:
  fixes a x :: "'a::len word"
  assumes "unat x + (unat a - 1) < 2 ^ LENGTH('a)" and "a \<noteq> 0"
  shows "unat (x + a - 1) = unat x + (unat a - 1)"
proof -
  have m: "unat (a - 1) = unat a - 1" using assms(2) by (rule unat_minus_one)
  have "unat (x + (a - 1)) = unat x + unat (a - 1)"
    by (rule unat_add_lem [THEN iffD1]) (simp only: m assms(1))
  moreover have "x + a - 1 = x + (a - 1)" by simp
  ultimately show ?thesis by (simp only: m)
qed

lemma unat_neg:
  fixes a :: "'a::len word"
  assumes "a \<noteq> 0"
  shows "unat (- a) = 2 ^ LENGTH('a) - unat a"
proof -
  have "0 < unat a" using assms by (simp add: unat_gt_0)
  then show ?thesis using unat_sub_if' [of 0 a] by simp
qed

lemma not_minus_1_eq_neg: "NOT (a - 1) = - (a::'a::len word)"
  by (simp add: minus_eq_not_minus_1)

lemma is_pow2_nonzero: "is_pow2 (a::'a::len word) \<Longrightarrow> a \<noteq> 0 \<and> 0 < unat a"
  by (erule is_pow2_unat) simp

lemma unat_align_ceil:
  fixes a x :: "'a::len word"
  assumes "is_pow2 a" and "unat x + (unat a - 1) < 2 ^ LENGTH('a)"
  shows "unat (align_ceil a x) = ((unat x + (unat a - 1)) div unat a) * unat a"
proof -
  have "a \<noteq> 0" using is_pow2_nonzero [OF assms(1)] by simp
  then have "unat (x + a - 1) = unat x + (unat a - 1)"
    using assms(2) by (intro unat_plus_align_minus_1)
  then show ?thesis
    by (simp only: align_ceil_def unat_align_floor [OF assms(1)])
qed

text \<open>
  Claim C7.  For a power-of-two \<open>A\<close>: \<open>align_floor(A, x)\<close> is \<open>x & ~(A - 1)\<close>, the greatest
  multiple of \<open>A\<close> that is at most \<open>x\<close>; and when \<open>x + A - 1\<close> does not overflow,
  \<open>align_ceil(A, x)\<close> is \<open>align_floor(A, x + A - 1)\<close>, the least multiple of \<open>A\<close> that is
  at least \<open>x\<close>.
\<close>

theorem align_floor_ceil_multiples:
  fixes A x :: "'a::len word"
  assumes "is_pow2 A"
  shows "align_floor A x = x AND NOT (A - 1)
       \<and> unat A dvd unat (align_floor A x)
       \<and> align_floor A x \<le> x
       \<and> (\<forall>m. unat A dvd unat m \<and> m \<le> x \<longrightarrow> m \<le> align_floor A x)
       \<and> (unat x + (unat A - 1) < 2 ^ LENGTH('a) \<longrightarrow>
            align_ceil A x = align_floor A (x + A - 1)
          \<and> unat A dvd unat (align_ceil A x)
          \<and> x \<le> align_ceil A x
          \<and> (\<forall>m. unat A dvd unat m \<and> x \<le> m \<longrightarrow> align_ceil A x \<le> m))"
proof -
  have pos: "0 < unat A" using is_pow2_nonzero [OF assms] by simp
  have f: "unat (align_floor A x) = (unat x div unat A) * unat A"
    by (rule unat_align_floor [OF assms])
  have 1: "align_floor A x = x AND NOT (A - 1)" by (simp add: align_floor_def)
  have 2: "unat A dvd unat (align_floor A x)" by (simp add: f)
  have 3: "align_floor A x \<le> x" by (simp add: word_le_nat_alt f)
  have 4: "\<forall>m. unat A dvd unat m \<and> m \<le> x \<longrightarrow> m \<le> align_floor A x"
    using pos by (auto simp: word_le_nat_alt f intro: floor_mult_greatest)
  have 5: "align_ceil A x = align_floor A (x + A - 1)
          \<and> unat A dvd unat (align_ceil A x)
          \<and> x \<le> align_ceil A x
          \<and> (\<forall>m. unat A dvd unat m \<and> x \<le> m \<longrightarrow> align_ceil A x \<le> m)"
    if h: "unat x + (unat A - 1) < 2 ^ LENGTH('a)"
  proof -
    have c: "unat (align_ceil A x) = ((unat x + (unat A - 1)) div unat A) * unat A"
      by (rule unat_align_ceil [OF assms h])
    have "x \<le> align_ceil A x"
      unfolding word_le_nat_alt c by (rule ceil_mult_ge [OF pos])
    moreover have "\<forall>m. unat A dvd unat m \<and> x \<le> m \<longrightarrow> align_ceil A x \<le> m"
      unfolding word_le_nat_alt c using pos by (blast intro: ceil_mult_least)
    moreover have "unat A dvd unat (align_ceil A x)" by (simp add: c)
    ultimately show ?thesis by (simp add: align_ceil_def)
  qed
  from 1 2 3 4 5 show ?thesis by blast
qed

theorem align_floor_ceil_multiples_witness:
  "align_floor (8 :: size_t) 13 = 8 \<and> align_ceil (8 :: size_t) 13 = 16
   \<and> (8 :: size_t) \<le> 13 \<and> (13 :: size_t) \<le> align_ceil 8 13
   \<and> (16 :: size_t) \<le> align_floor 8 21 \<and> align_ceil (8 :: size_t) 13 \<le> 16"
  using align_floor_ceil_multiples [OF is_pow2_8, of 13]
        align_floor_ceil_multiples [OF is_pow2_8, of 21]
  by (simp add: align_floor_def align_ceil_def)

section \<open>The value of \<open>flex_size\<close> in terms of natural numbers\<close>

lemma unat_sentinel:
  assumes "is_pow2 (A::'a::len word)"
  shows "unat (NOT (A - 1)) = 2 ^ LENGTH('a) - unat A"
  using is_pow2_nonzero [OF assms] by (simp add: not_minus_1_eq_neg unat_neg)

text \<open>
  When \<open>offset + align - 1\<close> does not wrap, \<open>ret\<close> before the final clamp is the sentinel
  if the exact sum \<open>size * count + offset + align - 1\<close> exceeds \<open>SIZE_MAX\<close>, and that sum
  rounded down to a multiple of \<open>align\<close> otherwise.
\<close>

lemma flex_size_nat:
  fixes A mn off esz n :: "'a::len word"
  assumes "is_pow2 A" and "esz \<noteq> 0" and e: "unat off + (unat A - 1) < 2 ^ LENGTH('a)"
  shows "\<exists>r. flex_size A mn off esz n =
                Some (if align_ceil A off < mn \<and> r < mn then mn else r)
            \<and> unat r =
                (if 2 ^ LENGTH('a) \<le> unat esz * unat n + (unat off + (unat A - 1))
                 then 2 ^ LENGTH('a) - unat A
                 else ((unat esz * unat n + (unat off + (unat A - 1))) div unat A) * unat A)"
proof -
  have nz: "A \<noteq> 0" using is_pow2_nonzero [OF assms(1)] by simp
  have ex: "unat (off + A - 1) = unat off + (unat A - 1)"
    using e nz by (rule unat_plus_align_minus_1)
  let ?P = "unat esz * unat n"
  let ?E = "unat off + (unat A - 1)"
  let ?r = "if 2 ^ LENGTH('a) \<le> ?P \<or> 2 ^ LENGTH('a) \<le> unat (esz * n) + unat (off + A - 1)
            then NOT (A - 1) else align_floor A (esz * n + (off + A - 1))"
  have fs: "flex_size A mn off esz n =
              Some (if align_ceil A off < mn \<and> ?r < mn then mn else ?r)"
    using flex_size_cases [OF assms(2), of A mn off n] by (simp only: Let_def)
  have "unat ?r = (if 2 ^ LENGTH('a) \<le> ?P + ?E then 2 ^ LENGTH('a) - unat A
                   else ((?P + ?E) div unat A) * unat A)"
  proof (cases "2 ^ LENGTH('a) \<le> ?P")
    case True
    then have "2 ^ LENGTH('a) \<le> ?P + ?E" by simp
    then show ?thesis using True by (simp add: unat_sentinel [OF assms(1)])
  next
    case False
    then have p: "unat (esz * n) = ?P" by (simp add: unat_mult_lem [symmetric])
    show ?thesis
    proof (cases "2 ^ LENGTH('a) \<le> ?P + ?E")
      case True
      then show ?thesis by (simp add: p ex unat_sentinel [OF assms(1)])
    next
      case nov: False
      have "unat (esz * n + (off + A - 1)) = unat (esz * n) + unat (off + A - 1)"
        by (rule unat_add_lem [THEN iffD1]) (use nov in \<open>simp add: p ex\<close>)
      then have "unat (align_floor A (esz * n + (off + A - 1))) = ((?P + ?E) div unat A) * unat A"
        by (simp only: unat_align_floor [OF assms(1)] p ex)
      then show ?thesis using nov False by (simp add: p ex)
    qed
  qed
  with fs show ?thesis by blast
qed

lemma flex_size_exact:
  fixes A mn off esz n :: "'a::len word"
  assumes "is_pow2 A" and "esz \<noteq> 0"
    and no: "unat esz * unat n + unat off + (unat A - 1) < 2 ^ LENGTH('a)"
  shows "flex_size A mn off esz n =
           Some (if align_ceil A off < mn \<and> align_ceil A (esz * n + off) < mn then mn
                 else align_ceil A (esz * n + off))"
    and "unat (align_ceil A (esz * n + off)) =
           ((unat esz * unat n + unat off + (unat A - 1)) div unat A) * unat A"
proof -
  have p: "unat (esz * n) = unat esz * unat n"
    using no by (simp add: unat_mult_lem [symmetric])
  have n1: "\<not> 2 ^ LENGTH('a) \<le> unat esz * unat n" using no by simp
  have nz: "A \<noteq> 0" using is_pow2_nonzero [OF assms(1)] by simp
  have "unat off + (unat A - 1) < 2 ^ LENGTH('a)" using no by simp
  then have ex: "unat (off + A - 1) = unat off + (unat A - 1)"
    using nz by (rule unat_plus_align_minus_1)
  have n2: "\<not> 2 ^ LENGTH('a) \<le> unat (esz * n) + unat (off + A - 1)"
    using no by (simp add: p ex)
  have "esz * n + (off + A - 1) = esz * n + off + A - 1" by (simp add: algebra_simps)
  then have c: "align_floor A (esz * n + (off + A - 1)) = align_ceil A (esz * n + off)"
    by (simp only: align_ceil_def)
  show "flex_size A mn off esz n =
           Some (if align_ceil A off < mn \<and> align_ceil A (esz * n + off) < mn then mn
                 else align_ceil A (esz * n + off))"
    using flex_size_cases [OF assms(2), of A mn off n] n1 n2 by (simp add: Let_def c)
  have s: "unat (esz * n + off) = unat esz * unat n + unat off"
    using no p by (simp add: unat_add_lem [THEN iffD1])
  have "unat (esz * n + off) + (unat A - 1) < 2 ^ LENGTH('a)" using no by (simp only: s)
  then show "unat (align_ceil A (esz * n + off)) =
           ((unat esz * unat n + unat off + (unat A - 1)) div unat A) * unat A"
    using unat_align_ceil [OF assms(1), of "esz * n + off"] by (simp only: s)
qed

text \<open>
  Claim C3 (as amended).  When no step overflows, \<open>flex_size(A, min, off, esz, n)\<close> is
  \<open>align_ceil(A, esz * n + off)\<close>, that is \<open>align_floor(A, esz * n + off + A - 1)\<close>,
  clamped up to \<open>min\<close> exactly when \<open>min > align_ceil(A, off)\<close>.  The sum is rounded up
  to the alignment rather than down.
\<close>

theorem flex_size_rounds_up:
  fixes A mn off esz n :: "'a::len word"
  assumes "is_pow2 A" and "esz \<noteq> 0"
    and "unat esz * unat n + unat off + (unat A - 1) < 2 ^ LENGTH('a)"
  shows "flex_size A mn off esz n =
           Some (let r = align_ceil A (esz * n + off)
                 in if mn > align_ceil A off then (if r < mn then mn else r) else r)
       \<and> align_ceil A (esz * n + off) = align_floor A (esz * n + off + A - 1)"
  using flex_size_exact(1) [OF assms, of mn]
  by (simp add: Let_def align_ceil_def)

theorem flex_size_rounds_up_witness:
  "flex_size (8 :: size_t) 16 16 1 3 = Some 24 \<and> flex_size (8 :: size_t) 32 16 1 3 = Some 32"
  using flex_size_rounds_up [OF is_pow2_8, of 1 3 16 16]
        flex_size_rounds_up [OF is_pow2_8, of 1 3 16 32]
  by (simp add: align_ceil_def align_floor_def)

text \<open>
  The formula as the specification words it, with \<open>align_floor\<close> applied to
  \<open>esz * n + off\<close>, differs from the code: for a struct of alignment 8 and size 16 whose
  flexible array of bytes starts at offset 16, three elements need 24 bytes, and the
  worded formula gives 16.
\<close>

theorem flex_size_spec_counterexample:
  "is_pow2 (8 :: size_t) \<and> (1 :: size_t) \<noteq> 0
   \<and> unat (1 :: size_t) * unat (3 :: size_t) + unat (16 :: size_t) + (unat (8 :: size_t) - 1) < 2 ^ 64
   \<and> flex_size (8 :: size_t) 16 16 1 3 = Some 24
   \<and> flex_size_spec (8 :: size_t) 16 16 1 3 = 16
   \<and> flex_size (8 :: size_t) 16 16 1 3 \<noteq> Some (flex_size_spec 8 16 16 1 3)"
  using is_pow2_8
  by (simp add: flex_size_def flex_size_spec_def udiv_def align_ceil_def align_floor_def)

text \<open>
  Claim C8.  When neither the product \<open>esz * n\<close> nor the sum \<open>esz * n + off + A - 1\<close>
  overflows, the result of \<open>flex_size\<close> is at least \<open>off + esz * n\<close>: the struct header
  and all \<open>n\<close> trailing elements fit.
\<close>

theorem flex_size_holds_elements:
  fixes A mn off esz n :: "'a::len word"
  assumes "is_pow2 A" and "esz \<noteq> 0"
    and "unat esz * unat n + unat off + (unat A - 1) < 2 ^ LENGTH('a)"
  shows "\<exists>r. flex_size A mn off esz n = Some r \<and> unat off + unat esz * unat n \<le> unat r"
proof -
  let ?c = "align_ceil A (esz * n + off)"
  have pos: "0 < unat A" using is_pow2_nonzero [OF assms(1)] by simp
  have "unat esz * unat n + unat off \<le> unat ?c"
    unfolding flex_size_exact(2) [OF assms] by (rule ceil_mult_ge [OF pos])
  moreover have "unat ?c \<le> unat mn" if "?c < mn"
    using that by (simp add: word_less_nat_alt)
  ultimately show ?thesis
    using flex_size_exact(1) [OF assms, of mn] by (auto simp: add.commute)
qed

theorem flex_size_holds_elements_witness:
  "\<exists>r. flex_size (8 :: size_t) 16 16 1 3 = Some r \<and> 19 \<le> unat r"
  using flex_size_holds_elements [OF is_pow2_8, of 1 3 16 16]
  by simp

section \<open>The sentinel\<close>

lemma pow2_dvd_word_size:
  assumes "is_pow2 (A::'a::len word)"
  shows "unat A dvd 2 ^ LENGTH('a)"
proof -
  from assms obtain k where k: "k < LENGTH('a)" "unat A = 2 ^ k"
    by (rule is_pow2_unat)
  then show ?thesis by (simp add: le_imp_power_dvd)
qed

lemma multiple_below_word_size:
  fixes a m M :: nat
  assumes "a dvd m" and "a dvd M" and "m < M"
  shows "m \<le> M - a"
proof -
  from assms(1) obtain c where c: "m = a * c" by (auto simp: dvd_def)
  from assms(2) obtain d where d: "M = a * d" by (auto simp: dvd_def)
  have "c < d" using assms(3) c d by simp
  then have "c + 1 \<le> d" by simp
  then have "a * (c + 1) \<le> a * d" by (rule mult_le_mono2)
  then show ?thesis by (simp add: c d)
qed

lemma sentinel_largest_aligned:
  fixes A m :: "'a::len word"
  assumes "is_pow2 A"
  shows "unat A dvd unat (NOT (A - 1))"
    and "unat A dvd unat m \<Longrightarrow> m \<le> NOT (A - 1)"
proof -
  have d: "unat A dvd 2 ^ LENGTH('a)" by (rule pow2_dvd_word_size [OF assms])
  have "unat A < 2 ^ LENGTH('a)" by (rule unsigned_less)
  then show "unat A dvd unat (NOT (A - 1))"
    using d by (simp add: unat_sentinel [OF assms])
  assume "unat A dvd unat m"
  moreover have "unat m < 2 ^ LENGTH('a)" by (rule unsigned_less)
  ultimately have "unat m \<le> 2 ^ LENGTH('a) - unat A"
    using d by (intro multiple_below_word_size)
  then show "m \<le> NOT (A - 1)"
    by (simp add: word_le_nat_alt unat_sentinel [OF assms])
qed

text \<open>
  The value of \<open>flex_size\<close> once the overflow flag is set: the sentinel, passed through
  the final clamp.
\<close>

lemma flex_size_overflow_value:
  fixes A mn off esz n :: "'a::len word"
  assumes "is_pow2 A" and "esz \<noteq> 0"
    and "2 ^ LENGTH('a) \<le> unat esz * unat n
         \<or> (unat off + (unat A - 1) < 2 ^ LENGTH('a)
            \<and> 2 ^ LENGTH('a) \<le> unat esz * unat n + (unat off + (unat A - 1)))"
  shows "flex_size A mn off esz n =
           Some (if align_ceil A off < mn \<and> NOT (A - 1) < mn then mn else NOT (A - 1))"
proof -
  have nz: "A \<noteq> 0" using is_pow2_nonzero [OF assms(1)] by simp
  have cond: "2 ^ LENGTH('a) \<le> unat esz * unat n
              \<or> 2 ^ LENGTH('a) \<le> unat (esz * n) + unat (off + A - 1)"
  proof (cases "2 ^ LENGTH('a) \<le> unat esz * unat n")
    case True
    then show ?thesis by simp
  next
    case False
    then have e: "unat off + (unat A - 1) < 2 ^ LENGTH('a)"
      and s: "2 ^ LENGTH('a) \<le> unat esz * unat n + (unat off + (unat A - 1))"
      using assms(3) by simp_all
    have "unat (esz * n) = unat esz * unat n"
      using False by (simp add: unat_mult_lem [symmetric])
    moreover have "unat (off + A - 1) = unat off + (unat A - 1)"
      using e nz by (rule unat_plus_align_minus_1)
    ultimately show ?thesis using s by simp
  qed
  show ?thesis
    using flex_size_cases [OF assms(2), of A mn off n] cond by (simp add: Let_def)
qed

lemma flex_size_overflow_sentinel:
  fixes A mn off esz n :: "'a::len word"
  assumes "is_pow2 A" and "esz \<noteq> 0"
    and "2 ^ LENGTH('a) \<le> unat esz * unat n
         \<or> (unat off + (unat A - 1) < 2 ^ LENGTH('a)
            \<and> 2 ^ LENGTH('a) \<le> unat esz * unat n + (unat off + (unat A - 1)))"
    and "mn \<le> NOT (A - 1)"
  shows "flex_size A mn off esz n = Some (NOT (A - 1))"
  using flex_size_overflow_value [OF assms(1,2,3), of mn] assms(4)
  by (auto simp: not_less [symmetric])

text \<open>
  Claim C2 (as amended).  When the product \<open>esz * n\<close> overflows, or \<open>off + A - 1\<close> fits a
  \<open>size_t\<close> and adding it to the product overflows, \<open>flex_size\<close> returns the largest
  \<open>A\<close>-aligned value \<open>~(A - 1)\<close>, unless \<open>min\<close> exceeds both \<open>align_ceil(A, off)\<close> and that
  sentinel, in which case the final clamp returns \<open>min\<close>.  The result is never below
  the sentinel.
\<close>

theorem flex_size_saturates:
  fixes A mn off esz n :: "'a::len word"
  assumes "is_pow2 A" and "esz \<noteq> 0"
    and "2 ^ LENGTH('a) \<le> unat esz * unat n
         \<or> (unat off + (unat A - 1) < 2 ^ LENGTH('a)
            \<and> 2 ^ LENGTH('a) \<le> unat esz * unat n + (unat off + (unat A - 1)))"
  shows "flex_size A mn off esz n =
           Some (if align_ceil A off < mn \<and> NOT (A - 1) < mn then mn else NOT (A - 1))
       \<and> (mn \<le> NOT (A - 1) \<longrightarrow> flex_size A mn off esz n = Some (NOT (A - 1)))
       \<and> unat A dvd unat (NOT (A - 1))
       \<and> (\<forall>m. unat A dvd unat m \<longrightarrow> m \<le> NOT (A - 1))"
proof -
  have 1: "flex_size A mn off esz n =
           Some (if align_ceil A off < mn \<and> NOT (A - 1) < mn then mn else NOT (A - 1))"
    by (rule flex_size_overflow_value [OF assms])
  have 2: "flex_size A mn off esz n = Some (NOT (A - 1))" if "mn \<le> NOT (A - 1)"
    by (rule flex_size_overflow_sentinel [OF assms that])
  from 1 2 sentinel_largest_aligned [OF assms(1)] show ?thesis by blast
qed

theorem flex_size_saturates_witness:
  "flex_size (8 :: size_t) 24 16 16 0xFFFFFFFFFFFFFFFF = Some 0xFFFFFFFFFFFFFFF8
   \<and> flex_size (8 :: size_t) 24 16 1 0xFFFFFFFFFFFFFFF0 = Some 0xFFFFFFFFFFFFFFF8"
  using flex_size_saturates [OF is_pow2_8, of 16 "0xFFFFFFFFFFFFFFFF" 16 24]
        flex_size_saturates [OF is_pow2_8, of 1 "0xFFFFFFFFFFFFFFF0" 16 24]
  by simp

text \<open>
  The claim as stated fails in two ways.  With \<open>min = SIZE_MAX\<close> the final clamp
  returns \<open>min\<close>, not the sentinel, although the product overflows.  With
  \<open>off = SIZE_MAX\<close> the sum \<open>off + A - 1\<close> itself wraps to 6 before it is added, no
  overflow is recorded, and the result is 0.
\<close>

theorem flex_size_saturates_counterexample:
  "is_pow2 (8 :: size_t) \<and> (16 :: size_t) \<noteq> 0
   \<and> 2 ^ 64 \<le> unat (16 :: size_t) * unat (0xFFFFFFFFFFFFFFFF :: size_t)
   \<and> flex_size (8 :: size_t) 0xFFFFFFFFFFFFFFFF 0 16 0xFFFFFFFFFFFFFFFF = Some 0xFFFFFFFFFFFFFFFF
   \<and> NOT (8 - 1 :: size_t) = 0xFFFFFFFFFFFFFFF8
   \<and> 2 ^ 64 \<le> unat (1 :: size_t) * unat (0 :: size_t)
                 + unat (0xFFFFFFFFFFFFFFFF :: size_t) + (unat (8 :: size_t) - 1)
   \<and> flex_size (8 :: size_t) 0 0xFFFFFFFFFFFFFFFF 1 0 = Some 0"
  using is_pow2_8
  by (simp add: flex_size_def udiv_def align_ceil_def align_floor_def)

section \<open>Wrapping in \<open>align_ceil\<close> against saturation\<close>

text \<open>
  Claim C9 (as amended).  \<open>align_ceil\<close> does not saturate.  For a power-of-two \<open>A \<ge> 2\<close>
  and \<open>x > SIZE_MAX - (A - 1)\<close>, the sum \<open>x + A - 1\<close> exceeds \<open>SIZE_MAX\<close> and wraps, and
  \<open>align_ceil(A, x)\<close> is 0, which is strictly less than \<open>x\<close>; for example
  \<open>align_ceil(8, SIZE_MAX) = 0\<close> at 64 bits.  By contrast \<open>array_size\<close> returns the
  sentinel \<open>~(A - 1)\<close> whenever its product overflows, and \<open>flex_size\<close> returns it when
  the product overflows, or when \<open>off + A - 1\<close> fits a \<open>size_t\<close> and adding it to the
  product overflows, provided \<open>min \<le> ~(A - 1)\<close>.
\<close>

theorem align_ceil_wraps:
  fixes A x S N mn off esz n :: "'a::len word"
  assumes "is_pow2 A" and "2 \<le> A" and "- 1 - (A - 1) < x"
  shows "2 ^ LENGTH('a) \<le> unat x + (unat A - 1)
       \<and> unat (x + A - 1) = unat x + (unat A - 1) - 2 ^ LENGTH('a)
       \<and> align_ceil A x = 0
       \<and> align_ceil A x < x
       \<and> align_ceil (8 :: size_t) 0xFFFFFFFFFFFFFFFF = 0
       \<and> (S \<noteq> 0 \<and> 2 ^ LENGTH('a) \<le> unat S * unat N \<longrightarrow>
            array_size A S N = Some (NOT (A - 1)))
       \<and> (esz \<noteq> 0 \<and> mn \<le> NOT (A - 1)
            \<and> (2 ^ LENGTH('a) \<le> unat esz * unat n
               \<or> (unat off + (unat A - 1) < 2 ^ LENGTH('a)
                  \<and> 2 ^ LENGTH('a) \<le> unat esz * unat n + (unat off + (unat A - 1)))) \<longrightarrow>
            flex_size A mn off esz n = Some (NOT (A - 1)))"
proof -
  have nz: "A \<noteq> 0" and pos: "0 < unat A" using is_pow2_nonzero [OF assms(1)] by simp_all
  have am: "unat (A - 1) = unat A - 1" using nz by (rule unat_minus_one)
  have "- 1 - (A - 1) = - A" by simp
  then have "unat (- A) < unat x" using assms(3) by (simp only: word_less_nat_alt)
  then have lt: "2 ^ LENGTH('a) - unat A < unat x" by (simp only: unat_neg [OF nz])
  have xb: "unat x < 2 ^ LENGTH('a)" by (rule unsigned_less)
  have ab: "unat A < 2 ^ LENGTH('a)" by (rule unsigned_less)
  have ov: "2 ^ LENGTH('a) \<le> unat x + (unat A - 1)" using lt xb ab by arith
  have "x + A - 1 = x + (A - 1)" by simp
  then have "unat (x + A - 1) = (unat x + (unat A - 1)) mod 2 ^ LENGTH('a)"
    by (simp only: unat_word_ariths(1) am)
  also have "\<dots> = (unat x + (unat A - 1) - 2 ^ LENGTH('a)) mod 2 ^ LENGTH('a)"
    using ov by (rule le_mod_geq)
  also have "\<dots> = unat x + (unat A - 1) - 2 ^ LENGTH('a)"
  proof (rule mod_less)
    show "unat x + (unat A - 1) - 2 ^ LENGTH('a) < 2 ^ LENGTH('a)" using xb ab by arith
  qed
  finally have w: "unat (x + A - 1) = unat x + (unat A - 1) - 2 ^ LENGTH('a)" .
  then have small: "unat (x + A - 1) < unat A" using xb pos ov by arith
  have "unat (align_ceil A x) = 0"
    using small by (simp add: align_ceil_def unat_align_floor [OF assms(1)])
  then have z: "align_ceil A x = 0" by (simp add: unat_eq_0)
  have "0 < unat x" using lt by arith
  then have px: "0 < x" by (simp add: word_less_nat_alt)
  have c: "align_ceil (8 :: size_t) 0xFFFFFFFFFFFFFFFF = 0"
    by (simp add: align_ceil_def align_floor_def)
  have arr: "array_size A S N = Some (NOT (A - 1))"
    if "S \<noteq> 0 \<and> 2 ^ LENGTH('a) \<le> unat S * unat N"
    using that array_size_cases [of S A N] by (simp add: not_less [symmetric])
  have flx: "flex_size A mn off esz n = Some (NOT (A - 1))"
    if "esz \<noteq> 0 \<and> mn \<le> NOT (A - 1)
        \<and> (2 ^ LENGTH('a) \<le> unat esz * unat n
           \<or> (unat off + (unat A - 1) < 2 ^ LENGTH('a)
              \<and> 2 ^ LENGTH('a) \<le> unat esz * unat n + (unat off + (unat A - 1))))"
    using that by (intro flex_size_overflow_sentinel [OF assms(1)]) simp_all
  from ov w z px c arr flx show ?thesis by simp
qed

theorem align_ceil_wraps_witness:
  "align_ceil (8 :: size_t) 0xFFFFFFFFFFFFFFFA = 0
   \<and> unat (0xFFFFFFFFFFFFFFFA + 8 - 1 :: size_t) = 1
   \<and> array_size (8 :: size_t) 16 0xFFFFFFFFFFFFFFFF = Some 0xFFFFFFFFFFFFFFF8
   \<and> flex_size (8 :: size_t) 24 16 16 0xFFFFFFFFFFFFFFFF = Some 0xFFFFFFFFFFFFFFF8
   \<and> flex_size (8 :: size_t) 24 16 1 0xFFFFFFFFFFFFFFF0 = Some 0xFFFFFFFFFFFFFFF8"
  using align_ceil_wraps [OF is_pow2_8, where x = "0xFFFFFFFFFFFFFFFA" and S = 16
          and N = "0xFFFFFFFFFFFFFFFF" and esz = 16 and n = "0xFFFFFFFFFFFFFFFF"
          and mn = 24 and off = 16]
        align_ceil_wraps [OF is_pow2_8, where x = "0xFFFFFFFFFFFFFFFA" and S = 16
          and N = "0xFFFFFFFFFFFFFFFF" and esz = 1 and n = "0xFFFFFFFFFFFFFFF0"
          and mn = 24 and off = 16]
  by simp

text \<open>
  The contrast as the claim words it, that \<open>flex_size\<close> returns the aligned sentinel on
  overflow, fails where \<open>off + A - 1\<close> itself wraps: \<open>flex_size\<close> computes that sum
  unchecked, exactly as \<open>align_ceil\<close> does, so with \<open>off = SIZE_MAX - 3\<close> the exact sum
  exceeds \<open>SIZE_MAX\<close> and both functions return 0.
\<close>

theorem align_ceil_contrast_counterexample:
  "is_pow2 (8 :: size_t) \<and> (2 :: size_t) \<le> 8 \<and> (1 :: size_t) \<noteq> 0
   \<and> - 1 - (8 - 1) < (0xFFFFFFFFFFFFFFFC :: size_t)
   \<and> 2 ^ 64 \<le> unat (1 :: size_t) * unat (0 :: size_t)
                 + unat (0xFFFFFFFFFFFFFFFC :: size_t) + (unat (8 :: size_t) - 1)
   \<and> align_ceil (8 :: size_t) 0xFFFFFFFFFFFFFFFC = 0
   \<and> flex_size (8 :: size_t) 0 0xFFFFFFFFFFFFFFFC 1 0 = Some 0
   \<and> NOT (8 - 1 :: size_t) = 0xFFFFFFFFFFFFFFF8
   \<and> flex_size (8 :: size_t) 0 0xFFFFFFFFFFFFFFFC 1 0 \<noteq> Some (NOT (8 - 1))"
  using is_pow2_8
  by (simp add: flex_size_def udiv_def align_ceil_def align_floor_def)

section \<open>Monotonicity of the flexible struct size\<close>

text \<open>
  The value of \<open>ret\<close> before the final clamp, as a natural number: \<open>P\<close> is the exact
  product \<open>size * count\<close>, \<open>E\<close> the exact \<open>offset + align - 1\<close>, \<open>a\<close> the alignment and \<open>M\<close>
  the number of values of a \<open>size_t\<close>.
\<close>

lemma rounded_sum_facts:
  fixes a M E P P' :: nat
  assumes a: "0 < a" "a dvd M" and E: "E < M" and le: "P \<le> P'"
  defines "R \<equiv> \<lambda>p. if M \<le> p + E then M - a else ((p + E) div a) * a"
  shows "a dvd R P" and "(E div a) * a \<le> R P" and "R P \<le> R P'"
proof -
  have below: "(s div a) * a \<le> M - a" if "s < M" for s
  proof (rule multiple_below_word_size)
    show "a dvd (s div a) * a" by simp
    show "a dvd M" by (rule a(2))
    have "(s div a) * a \<le> s" by simp
    then show "(s div a) * a < M" using that by (rule le_less_trans)
  qed
  have aM: "a \<le> M" using a E by (auto intro: dvd_imp_le)
  show "a dvd R P" using a aM by (simp add: R_def)
  show "(E div a) * a \<le> R P"
  proof (cases "M \<le> P + E")
    case True
    then show ?thesis using below [OF E] by (simp add: R_def)
  next
    case False
    have "E div a \<le> (P + E) div a" by (rule div_le_mono) simp
    then show ?thesis using False by (simp add: R_def)
  qed
  show "R P \<le> R P'"
  proof (cases "M \<le> P + E")
    case True
    then have "M \<le> P' + E" using le by simp
    then show ?thesis using True by (simp add: R_def)
  next
    case False
    show ?thesis
    proof (cases "M \<le> P' + E")
      case True
      then show ?thesis using False below [of "P + E"] by (simp add: R_def)
    next
      case nov: False
      have "(P + E) div a \<le> (P' + E) div a" using le by (intro div_le_mono) simp
      then show ?thesis using False nov by (simp add: R_def)
    qed
  qed
qed

lemma aligned_min_offset_fits:
  fixes A mn off :: "'a::len word"
  assumes "is_pow2 A" and "unat A dvd unat mn" and "off \<le> mn"
  shows "unat off + (unat A - 1) < 2 ^ LENGTH('a)"
proof -
  have pos: "0 < unat A" using is_pow2_nonzero [OF assms(1)] by simp
  have "unat mn \<le> 2 ^ LENGTH('a) - unat A"
    using assms(2) pow2_dvd_word_size [OF assms(1)] unsigned_less
    by (rule multiple_below_word_size)
  moreover have "unat off \<le> unat mn" using assms(3) by (simp add: word_le_nat_alt)
  moreover have "unat A < 2 ^ LENGTH('a)" by (rule unsigned_less)
  ultimately show ?thesis using pos by arith
qed

text \<open>
  Claim C4.  For a type layout with power-of-two alignment \<open>A\<close>, base size \<open>min\<close> a
  multiple of \<open>A\<close> with \<open>min \<ge> align_ceil(A, off)\<close>, offset \<open>off \<le> min\<close> and element size
  \<open>esz > 0\<close>: for every count, \<open>flex_size\<close> returns a multiple of \<open>A\<close> that is at least
  \<open>min\<close>, and a larger count never gives a smaller result.  The macro \<open>sizeof_flex\<close>
  expands to \<open>flex_size\<close> on the \<open>alignof\<close>, \<open>sizeof\<close> and \<open>offsetof\<close> of the type.
\<close>

theorem flex_size_monotone_aligned:
  fixes A mn off esz count count' :: "'a::len word"
  assumes "is_pow2 A" and "unat A dvd unat mn" and "align_ceil A off \<le> mn"
    and "off \<le> mn" and "esz \<noteq> 0" and "count \<le> count'"
  shows "\<exists>r r'. flex_size A mn off esz count = Some r
              \<and> flex_size A mn off esz count' = Some r'
              \<and> r \<le> r' \<and> unat A dvd unat r \<and> mn \<le> r
              \<and> unat A dvd unat r' \<and> mn \<le> r'"
proof -
  let ?M = "2 ^ LENGTH('a) :: nat"
  let ?E = "unat off + (unat A - 1)"
  let ?R = "\<lambda>p. if ?M \<le> p + ?E then ?M - unat A else ((p + ?E) div unat A) * unat A"
  have pos: "0 < unat A" using is_pow2_nonzero [OF assms(1)] by simp
  have dM: "unat A dvd ?M" by (rule pow2_dvd_word_size [OF assms(1)])
  have e: "?E < ?M" by (rule aligned_min_offset_fits [OF assms(1,2,4)])
  have le: "unat esz * unat count \<le> unat esz * unat count'"
    using assms(6) by (simp add: word_le_nat_alt)
  have ac: "unat (align_ceil A off) = (?E div unat A) * unat A"
    by (rule unat_align_ceil [OF assms(1) e])
  obtain q where q: "flex_size A mn off esz count =
        Some (if align_ceil A off < mn \<and> q < mn then mn else q)"
      "unat q = ?R (unat esz * unat count)"
    using flex_size_nat [OF assms(1,5) e, of mn count] by (auto simp: add.assoc)
  obtain q' where q': "flex_size A mn off esz count' =
        Some (if align_ceil A off < mn \<and> q' < mn then mn else q')"
      "unat q' = ?R (unat esz * unat count')"
    using flex_size_nat [OF assms(1,5) e, of mn count'] by (auto simp: add.assoc)
  have dq: "unat A dvd unat q" and dq': "unat A dvd unat q'"
    unfolding q(2) q'(2) by (rule rounded_sum_facts(1) [OF pos dM e order_refl])+
  have "unat (align_ceil A off) \<le> unat q" and "unat (align_ceil A off) \<le> unat q'"
    unfolding q(2) q'(2) ac by (rule rounded_sum_facts(2) [OF pos dM e order_refl])+
  then have lo: "align_ceil A off \<le> q" and lo': "align_ceil A off \<le> q'"
    by (simp_all add: word_le_nat_alt)
  have "unat q \<le> unat q'"
    unfolding q(2) q'(2) by (rule rounded_sum_facts(3) [OF pos dM e le])
  then have mono: "q \<le> q'" by (simp add: word_le_nat_alt)
  let ?r = "if align_ceil A off < mn \<and> q < mn then mn else q"
  let ?r' = "if align_ceil A off < mn \<and> q' < mn then mn else q'"
  have ge: "mn \<le> ?r" and ge': "mn \<le> ?r'"
    using lo lo' assms(3) by auto
  have al: "unat A dvd unat ?r" and al': "unat A dvd unat ?r'"
    using dq dq' assms(2) by simp_all
  have "?r \<le> ?r'" using mono ge' by auto
  with q(1) q'(1) ge ge' al al' show ?thesis by blast
qed

theorem flex_size_monotone_aligned_witness:
  "\<exists>r r'. flex_size (8 :: size_t) 24 16 8 1 = Some r \<and> flex_size (8 :: size_t) 24 16 8 3 = Some r'
          \<and> r \<le> r' \<and> 8 dvd unat r \<and> 24 \<le> r"
proof -
  have "align_ceil (8 :: size_t) 16 \<le> 24" by (simp add: align_ceil_def align_floor_def)
  then show ?thesis
    using flex_size_monotone_aligned [OF is_pow2_8, of 24 16 8 1 3] by auto
qed

section \<open>Conservation of queue entries\<close>

lemma ioq_submit_total:
  "ioq_total (snd (ioq_submit q opn args cookie)) = ioq_total q
   \<and> ioq_depth (snd (ioq_submit q opn args cookie)) = ioq_depth q"
  by (simp add: ioq_submit_def ioq_total_def split: list.split)

lemma ioq_dispatch_total:
  "ioq_total (ioq_dispatch q) = ioq_total q \<and> ioq_depth (ioq_dispatch q) = ioq_depth q"
  by (simp add: ioq_dispatch_def ioq_total_def split: list.split)

lemma ioq_publish_total:
  "ioq_total (ioq_publish q e r err) = ioq_total q
   \<and> ioq_depth (ioq_publish q e r err) = ioq_depth q"
proof (cases "e \<in> set (ioq_inflight q)")
  case True
  then have "0 < length (ioq_inflight q)" by (cases "ioq_inflight q") simp_all
  then show ?thesis using True by (simp add: ioq_publish_def ioq_total_def length_remove1)
next
  case False
  then show ?thesis by (simp add: ioq_publish_def)
qed

lemma ioq_trypop_total:
  "ioq_total (snd (ioq_trypop q)) = ioq_total q
   \<and> ioq_depth (snd (ioq_trypop q)) = ioq_depth q"
  by (simp add: ioq_trypop_def ioq_total_def split: list.split)

lemma ioq_free_total:
  assumes "ioq_free q e = Some q'"
  shows "ioq_total q' = ioq_total q \<and> ioq_depth q' = ioq_depth q"
proof -
  from assms have m: "e \<in> set (ioq_popped q)"
    and q': "q' = q\<lparr>ioq_popped := remove1 e (ioq_popped q),
                     ioq_free_stack := e # ioq_free_stack q\<rparr>"
    by (auto simp: ioq_free_def split: if_splits)
  from m have "0 < length (ioq_popped q)" by (cases "ioq_popped q") simp_all
  then show ?thesis using m by (simp add: q' ioq_total_def length_remove1)
qed

lemma ioq_cancel_total:
  "ioq_total (ioq_cancel q) = ioq_total q \<and> ioq_depth (ioq_cancel q) = ioq_depth q"
  by (simp add: ioq_cancel_def ioq_total_def)

lemma ioq_step_total:
  assumes "ioq_step q ev = Some q'"
  shows "ioq_total q' = ioq_total q \<and> ioq_depth q' = ioq_depth q"
proof (cases ev)
  case (Submit opn args cookie)
  then show ?thesis using assms ioq_submit_total [of q opn args cookie] by auto
next
  case Dispatch
  then show ?thesis using assms ioq_dispatch_total [of q] by auto
next
  case (Publish e r err)
  then show ?thesis using assms ioq_publish_total [of q e r err] by auto
next
  case Pop
  then show ?thesis using assms ioq_trypop_total [of q] by auto
next
  case (Free e)
  then show ?thesis using assms ioq_free_total [of q e q'] by simp
next
  case Cancel
  then show ?thesis using assms ioq_cancel_total [of q] by auto
qed

lemma ioq_run_total:
  "ioq_run q evs = Some q' \<Longrightarrow> ioq_total q' = ioq_total q \<and> ioq_depth q' = ioq_depth q"
proof (induction evs arbitrary: q)
  case Nil
  then show ?case by simp
next
  case (Cons ev evs)
  then obtain q1 where s: "ioq_step q ev = Some q1" and r: "ioq_run q1 evs = Some q'"
    by (auto split: option.splits)
  from Cons.IH [OF r] ioq_step_total [OF s] show ?case by simp
qed

lemma ioq_create_total:
  "ioq_create depth nthreads alloc_ok = Some q \<Longrightarrow> ioq_total q = depth \<and> ioq_depth q = depth"
  by (auto simp: ioq_create_def ioq_total_def split: if_splits)

text \<open>
  Claim C6.  For a queue created by a successful \<open>ioq_create(depth, nthreads)\<close> and any
  state reached from it by submissions, worker dispatches and publications, pops,
  frees and cancels: the free entries, the submitted entries, the entries in flight and
  the completed entries not yet freed (those in the completion ring and those the
  driver holds) together number \<open>depth\<close>, and \<open>ioq_capacity\<close> is at most \<open>depth\<close>.
\<close>

theorem ioq_entries_conserved:
  assumes "ioq_create depth nthreads alloc_ok = Some q0"
    and "ioq_run q0 evs = Some q"
  shows "length (ioq_free_stack q) + length (ioq_submitted q) + length (ioq_inflight q)
           + (length (ioq_completed q) + length (ioq_popped q)) = depth
       \<and> ioq_capacity q \<le> depth
       \<and> ioq_depth q = depth"
proof -
  have "ioq_total q = depth \<and> ioq_depth q = depth"
    using ioq_create_total [OF assms(1)] ioq_run_total [OF assms(2)] by simp
  then show ?thesis by (auto simp: ioq_total_def ioq_capacity_def)
qed

theorem ioq_entries_conserved_witness:
  "\<exists>q0 q. ioq_create 2 1 True = Some q0
     \<and> ioq_run q0 [Submit IOQ_OPENDIR (Opendir_args 1 3 ''a'') 10,
                   Submit IOQ_OPENDIR (Opendir_args 2 3 ''b'') 11,
                   Dispatch, Cancel, Publish 0 0 0, Pop, Pop, Free 1] = Some q
     \<and> ioq_capacity q = 1
     \<and> length (ioq_free_stack q) + length (ioq_submitted q) + length (ioq_inflight q)
         + (length (ioq_completed q) + length (ioq_popped q)) = 2"
proof -
  let ?evs = "[Submit IOQ_OPENDIR (Opendir_args 1 3 ''a'') 10,
               Submit IOQ_OPENDIR (Opendir_args 2 3 ''b'') 11,
               Dispatch, Cancel, Publish 0 0 0, Pop, Pop, Free 1]"
  obtain q0 where c: "ioq_create 2 1 True = Some q0"
    and q0: "q0 = \<lparr>ioq_depth = 2, ioq_nthreads = 1, ioq_ents = [blank_ent, blank_ent],
                   ioq_free_stack = [0, 1], ioq_submitted = [], ioq_inflight = [],
                   ioq_completed = [], ioq_popped = [], ioq_cancelled = False\<rparr>"
    by (simp add: ioq_create_def numeral_2_eq_2)
  obtain q where r: "ioq_run q0 ?evs = Some q" and cap: "ioq_capacity q = 1"
    by (simp add: q0 ioq_submit_def ioq_dispatch_def ioq_cancel_def ioq_publish_def
        ioq_trypop_def ioq_free_def ioq_capacity_def)
  from ioq_entries_conserved [OF c r] c r cap show ?thesis by blast
qed

end
